theory Spec2Isabelle
  imports Complex_Main "HOL-Library.Multiset"
begin

section \<open>Planetary alignment finder: data model\<close>

text \<open>
  The Python sources compute with \<open>float\<close>. Throughout this development a float is
  idealised as a \<^typ>\<open>real\<close>: rounding, infinities and NaN are outside the model.
  Calendar days (\<open>datetime.date\<close>) are proleptic Gregorian ordinals, an \<^typ>\<open>int\<close>
  between \<open>date.min\<close> (ordinal 1) and \<open>date.max\<close> (ordinal 3652059); adding
  \<open>timedelta(days=1)\<close> to \<open>date.max\<close> raises \<open>OverflowError\<close>.
  Every exception of the source is a value of \<open>error\<close>, returned as \<open>Inl\<close>.
\<close>

type_synonym date = int

datatype error =
    UnknownPlanetAvailable string "string list"
      \<comment> \<open>\<open>ValueError("Unknown planet name: {p}. Available: {list(PLANET_IDS.keys())}")\<close>\<close>
  | UnknownPlanet string
      \<comment> \<open>\<open>ValueError("Unknown planet name: {p}")\<close>\<close>
  | EmptyMax
      \<comment> \<open>\<open>ValueError\<close> of \<open>max([])\<close>\<close>
  | IndexError
  | KeyError string
  | ZeroDivisionError
  | OverflowError
  | ProviderError string
      \<comment> \<open>any exception raised while fetching or parsing a Horizons response\<close>

definition PLANET_IDS :: "(string \<times> string) list" where
  "PLANET_IDS =
     [(''Mercury'', ''199''), (''Venus'', ''299''), (''Mars'', ''499''),
      (''Jupiter'', ''599''), (''Saturn'', ''699''), (''Uranus'', ''799''),
      (''Neptune'', ''899'')]"

definition date_max :: date where
  "date_max = 3652059"

record AlignmentHit =
  start :: date
  end_day :: date
  planets :: "string list"
  max_span_deg :: real

record Elements =
  epoch_jd :: real
  a_km :: real
  Omega_deg :: real
  w_deg :: real
  M_deg :: real

record datetime =
  year :: int
  month :: int
  day :: int
  hour :: int
  minute :: int

section \<open>Angular geometry\<close>

text \<open>Python's \<open>x % m\<close> on floats, for a positive modulus \<open>m\<close>.\<close>

definition py_mod :: "real \<Rightarrow> real \<Rightarrow> real" where
  "py_mod x m = x - m * of_int \<lfloor>x / m\<rfloor>"

text \<open>Python's \<open>max\<close> of a list: \<open>ValueError\<close> on the empty list.\<close>

fun py_max :: "real list \<Rightarrow> error + real" where
  "py_max [] = Inl EmptyMax"
| "py_max (g # gs) = Inr (fold max gs g)"

text \<open>The gaps \<open>a[i+1] - a[i]\<close> for \<open>i\<close> in \<open>range(len(a) - 1)\<close>.\<close>

definition consecutive_gaps :: "real list \<Rightarrow> real list" where
  "consecutive_gaps a = map (\<lambda>i. a ! (i + 1) - a ! i) [0..<length a - 1]"

text \<open>\<open>_circular_span_deg\<close> of \<open>ecliptic/basic_scan.py\<close>.\<close>

definition basic_circular_span_deg :: "real list \<Rightarrow> error + real" where
  "basic_circular_span_deg angles_deg =
     (if angles_deg = [] then Inr 0
      else
        let a = sort (map (\<lambda>x. py_mod x 360) angles_deg) in
        if length a = 1 then Inr 0
        else
          let gaps = consecutive_gaps a @ [(a ! 0 + 360) - last a] in
          case py_max gaps of
            Inl e \<Rightarrow> Inl e
          | Inr largest_gap \<Rightarrow> Inr (360 - largest_gap))"

text \<open>\<open>circular_span_deg\<close> of \<open>eclipse2.py\<close>: no guard for short lists, so \<open>a[0]\<close>
  raises \<open>IndexError\<close> on the empty list.\<close>

definition circular_span_deg :: "real list \<Rightarrow> error + real" where
  "circular_span_deg angles =
     (let a = sort (map (\<lambda>x. py_mod x 360) angles);
          gaps = consecutive_gaps a
      in case a of
           [] \<Rightarrow> Inl IndexError
         | a0 # _ \<Rightarrow>
             (case py_max (gaps @ [a0 + 360 - last a]) of
                Inl e \<Rightarrow> Inl e
              | Inr m \<Rightarrow> Inr (360 - m)))"

text \<open>
  Two notions used to state and prove the properties of the span functions: the sorted
  list of normalised angles that both functions build first, and the list of all gaps
  of a sorted list, the wrap-around gap last.
\<close>

definition normalized :: "real list \<Rightarrow> real list" where
  "normalized xs = sort (map (\<lambda>x. py_mod x 360) xs)"

definition wrap_gaps :: "real list \<Rightarrow> real list" where
  "wrap_gaps a = consecutive_gaps a @ [hd a + 360 - last a]"

text \<open>
  The span as the specification words it: zero for fewer than two angles; otherwise
  normalise each angle into \<open>[0,360)\<close>, sort ascending, take the gaps between
  consecutive sorted angles and the wrap-around gap \<open>first + 360 - last\<close>, and
  return \<open>360\<close> minus the largest gap.
\<close>

definition spec_gap_set :: "real list \<Rightarrow> real set" where
  "spec_gap_set a =
     {a ! (i + 1) - a ! i | i. i + 1 < length a} \<union> {a ! 0 + 360 - a ! (length a - 1)}"

definition spec_circular_span :: "real list \<Rightarrow> real" where
  "spec_circular_span angles =
     (if length angles \<le> 1 then 0
      else 360 - Max (spec_gap_set (sort (map (\<lambda>x. x - 360 * of_int \<lfloor>x / 360\<rfloor>) angles))))"

text \<open>\<open>n\<close> evenly spaced angles, starting at \<open>\<theta>\<close>.\<close>

definition evenly_spaced :: "nat \<Rightarrow> real \<Rightarrow> real list" where
  "evenly_spaced n \<theta> = map (\<lambda>i. \<theta> + 360 * real i / real n) [0..<n]"

section \<open>Calendar conversion\<close>

text \<open>Python's \<open>int(x)\<close> on a float truncates towards zero.\<close>

definition py_int :: "real \<Rightarrow> int" where
  "py_int x = (if 0 \<le> x then \<lfloor>x\<rfloor> else \<lceil>x\<rceil>)"

text \<open>The range checks of the \<open>datetime\<close> constructor (\<open>MINYEAR = 1\<close>,
  \<open>MAXYEAR = 9999\<close>); the day is at most 31 in every month.\<close>

definition valid_datetime :: "datetime \<Rightarrow> bool" where
  "valid_datetime dt =
     (1 \<le> year dt \<and> year dt \<le> 9999 \<and> 1 \<le> month dt \<and> month dt \<le> 12 \<and>
      1 \<le> day dt \<and> day dt \<le> 31 \<and> 0 \<le> hour dt \<and> hour dt < 24 \<and>
      0 \<le> minute dt \<and> minute dt < 60)"

text \<open>\<open>jd_from_datetime\<close> of \<open>eclipse2.py\<close>; \<open>//\<close> on Python ints is \<open>div\<close>.\<close>

definition jd_from_datetime :: "datetime \<Rightarrow> real" where
  "jd_from_datetime dt =
     (let d = of_int (day dt) + (of_int (hour dt) + of_int (minute dt) / 60) / 24;
          (y, m) = (if month dt \<le> 2 then (year dt - 1, month dt + 12)
                    else (year dt, month dt));
          A = y div 100;
          B = 2 - A + (A div 4)
      in of_int (py_int (365.25 * of_int (y + 4716)))
         + of_int (py_int (30.6001 * of_int (m + 1))) + d + of_int B - 1524.5)"

text \<open>The standard Julian Day algorithm as the specification words it.\<close>

definition spec_julian_day :: "int \<Rightarrow> int \<Rightarrow> int \<Rightarrow> int \<Rightarrow> int \<Rightarrow> real" where
  "spec_julian_day Y M D h mi =
     (let (Y', M') = (if M \<le> 2 then (Y - 1, M + 12) else (Y, M));
          A = \<lfloor>real_of_int Y' / 100\<rfloor>;
          B = 2 - A + \<lfloor>real_of_int A / 4\<rfloor>;
          day_fraction = of_int D + (of_int h + of_int mi / 60) / 24
      in of_int \<lfloor>365.25 * real_of_int (Y' + 4716)\<rfloor>
         + of_int \<lfloor>30.6001 * real_of_int (M' + 1)\<rfloor> + day_fraction + of_int B - 1524.5)"

section \<open>Orbital mechanics and candidate generation\<close>

text \<open>\<open>math.radians\<close>.\<close>

definition radians :: "real \<Rightarrow> real" where
  "radians x = x * pi / 180"

text \<open>\<open>mean_longitude\<close> of \<open>eclipse2.py\<close>.\<close>

definition mean_longitude :: "Elements \<Rightarrow> real" where
  "mean_longitude el = radians (py_mod (Omega_deg el + w_deg el + M_deg el) 360)"

text \<open>Python's \<open>/\<close> on floats raises \<open>ZeroDivisionError\<close> on a zero divisor.\<close>

definition py_truediv :: "real \<Rightarrow> real \<Rightarrow> error + real" where
  "py_truediv x y = (if y = 0 then Inl ZeroDivisionError else Inr (x / y))"

text \<open>
  The candidate loop of \<open>main\<close> in \<open>eclipse2.py\<close>, over the values of \<open>k\<close> still
  to visit. \<open>t0\<close>, the mean longitudes \<open>lam[ref]\<close>, \<open>lam[seed]\<close>, the mean motions
  \<open>n[seed]\<close>, \<open>n[ref]\<close> and the bounds of the window (the Julian days of \<open>start\<close>
  and \<open>end\<close>) are the locals the loop reads.
\<close>

fun candidate_loop ::
  "int list \<Rightarrow> real \<Rightarrow> real \<Rightarrow> real \<Rightarrow> real \<Rightarrow> real \<Rightarrow> real \<Rightarrow> real \<Rightarrow> real list
   \<Rightarrow> error + real list" where
  "candidate_loop [] t0 lam_ref lam_seed n_seed n_ref lo hi cand = Inr cand"
| "candidate_loop (k # ks) t0 lam_ref lam_seed n_seed n_ref lo hi cand =
     (case py_truediv (lam_ref - lam_seed + 2 * pi * of_int k) (n_seed - n_ref) of
        Inl e \<Rightarrow> Inl e
      | Inr q \<Rightarrow>
          let t = t0 + q in
          candidate_loop ks t0 lam_ref lam_seed n_seed n_ref lo hi
            (if lo \<le> t \<and> t \<le> hi then cand @ [t] else cand))"

text \<open>\<open>for k in range(-200,200)\<close>, starting from \<open>cand=[]\<close>.\<close>

definition candidates ::
  "real \<Rightarrow> real \<Rightarrow> real \<Rightarrow> real \<Rightarrow> real \<Rightarrow> real \<Rightarrow> real \<Rightarrow> error + real list" where
  "candidates t0 lam_ref lam_seed n_seed n_ref lo hi =
     candidate_loop [-200..199] t0 lam_ref lam_seed n_seed n_ref lo hi []"

section \<open>Exhaustive scan\<close>

text \<open>
  The Ephemeris Provider, \<open>fetch_geocentric_ecliptic_longitude(body_id, day)\<close>, is a
  parameter: a function from a Horizons body id and a day to a longitude or an
  exception. Every call is recorded in a log, in order, so that a property can say
  which provider interactions a run made.
\<close>

type_synonym provider = "string \<Rightarrow> date \<Rightarrow> error + real"
type_synonym call_log = "(string \<times> date) list"

text \<open>The validation loop of \<open>list_planetary_alignments\<close>.\<close>

fun validate_planets :: "string list \<Rightarrow> error + unit" where
  "validate_planets [] = Inr ()"
| "validate_planets (p # ps) =
     (if p \<notin> set (map fst PLANET_IDS)
      then Inl (UnknownPlanetAvailable p (map fst PLANET_IDS))
      else validate_planets ps)"

text \<open>The validation loop of \<open>compute_spans\<close> in \<open>visualize_alignments.py\<close>.\<close>

fun validate_planets_spans :: "string list \<Rightarrow> error + unit" where
  "validate_planets_spans [] = Inr ()"
| "validate_planets_spans (p # ps) =
     (if p \<notin> set (map fst PLANET_IDS)
      then Inl (UnknownPlanet p)
      else validate_planets_spans ps)"

text \<open>The inner loop \<open>for p in planets: lons.append(fetch(PLANET_IDS[p], d))\<close>.\<close>

fun fetch_lons ::
  "provider \<Rightarrow> date \<Rightarrow> string list \<Rightarrow> real list \<Rightarrow> call_log
   \<Rightarrow> (error + real list) \<times> call_log" where
  "fetch_lons fetch d [] lons calls = (Inr lons, calls)"
| "fetch_lons fetch d (p # ps) lons calls =
     (case map_of PLANET_IDS p of
        None \<Rightarrow> (Inl (KeyError p), calls)
      | Some body_id \<Rightarrow>
          (case fetch body_id d of
             Inl e \<Rightarrow> (Inl e, calls @ [(body_id, d)])
           | Inr lon \<Rightarrow> fetch_lons fetch d ps (lons @ [lon]) (calls @ [(body_id, d)])))"

text \<open>
  The loop \<open>while d <= end_day\<close> of \<open>list_planetary_alignments\<close>;
  \<open>d += timedelta(days=1)\<close> raises \<open>OverflowError\<close> from \<open>date.max\<close>.
\<close>

function scan_days ::
  "provider \<Rightarrow> string list \<Rightarrow> real \<Rightarrow> date \<Rightarrow> date \<Rightarrow> (date \<times> real) list \<Rightarrow> call_log
   \<Rightarrow> (error + (date \<times> real) list) \<times> call_log" where
  "scan_days fetch pls thr d end_d hits calls =
     (if d \<le> end_d then
        (case fetch_lons fetch d pls [] calls of
           (Inl e, calls') \<Rightarrow> (Inl e, calls')
         | (Inr lons, calls') \<Rightarrow>
             (case basic_circular_span_deg lons of
                Inl e \<Rightarrow> (Inl e, calls')
              | Inr sp \<Rightarrow>
                  if date_max \<le> d then (Inl OverflowError, calls')
                  else scan_days fetch pls thr (d + 1) end_d
                         (if sp \<le> thr then hits @ [(d, sp)] else hits) calls'))
      else (Inr hits, calls))"
  by pat_completeness auto
termination
  by (relation "measure (\<lambda>(fetch, pls, thr, d, end_d, hits, calls). nat (end_d + 1 - d))") auto

text \<open>
  The merge loop \<open>for (d, span) in hits[1:]\<close>, with its four locals;
  \<open>cur_end + timedelta(days=1)\<close> raises \<open>OverflowError\<close> from \<open>date.max\<close>.
\<close>

fun merge_hits ::
  "string list \<Rightarrow> (date \<times> real) list \<Rightarrow> date \<Rightarrow> date \<Rightarrow> real \<Rightarrow> AlignmentHit list
   \<Rightarrow> error + AlignmentHit list" where
  "merge_hits pls [] cur_start cur_end cur_max_span intervals =
     Inr (intervals @
       [\<lparr>start = cur_start, end_day = cur_end, planets = pls, max_span_deg = cur_max_span\<rparr>])"
| "merge_hits pls ((d, sp) # rest) cur_start cur_end cur_max_span intervals =
     (if date_max \<le> cur_end then Inl OverflowError
      else if d = cur_end + 1
      then merge_hits pls rest cur_start d (max cur_max_span sp) intervals
      else merge_hits pls rest d d sp
             (intervals @
               [\<lparr>start = cur_start, end_day = cur_end, planets = pls,
                 max_span_deg = cur_max_span\<rparr>]))"

text \<open>\<open>list_planetary_alignments\<close> of \<open>ecliptic/basic_scan.py\<close>: the result and the
  log of provider calls.\<close>

definition list_planetary_alignments ::
  "provider \<Rightarrow> date \<Rightarrow> date \<Rightarrow> string list \<Rightarrow> real
   \<Rightarrow> (error + AlignmentHit list) \<times> call_log" where
  "list_planetary_alignments fetch start_d end_d pls span_threshold_deg =
     (case validate_planets pls of
        Inl e \<Rightarrow> (Inl e, [])
      | Inr _ \<Rightarrow>
          (case scan_days fetch pls span_threshold_deg start_d end_d [] [] of
             (Inl e, calls) \<Rightarrow> (Inl e, calls)
           | (Inr hits, calls) \<Rightarrow>
               (case hits of
                  [] \<Rightarrow> (Inr [], calls)
                | (d0, sp0) # rest \<Rightarrow> (merge_hits pls rest d0 d0 sp0 [], calls))))"

text \<open>The loop of \<open>compute_spans\<close>: every day and its span are kept.\<close>

function spans_loop ::
  "provider \<Rightarrow> string list \<Rightarrow> date \<Rightarrow> date \<Rightarrow> date list \<Rightarrow> real list \<Rightarrow> call_log
   \<Rightarrow> (error + date list \<times> real list) \<times> call_log" where
  "spans_loop fetch pls d end_d days spans calls =
     (if d \<le> end_d then
        (case fetch_lons fetch d pls [] calls of
           (Inl e, calls') \<Rightarrow> (Inl e, calls')
         | (Inr lons, calls') \<Rightarrow>
             (case basic_circular_span_deg lons of
                Inl e \<Rightarrow> (Inl e, calls')
              | Inr sp \<Rightarrow>
                  if date_max \<le> d then (Inl OverflowError, calls')
                  else spans_loop fetch pls (d + 1) end_d (days @ [d]) (spans @ [sp]) calls'))
      else (Inr (days, spans), calls))"
  by pat_completeness auto
termination
  by (relation "measure (\<lambda>(fetch, pls, d, end_d, days, spans, calls). nat (end_d + 1 - d))") auto

definition compute_spans ::
  "provider \<Rightarrow> date \<Rightarrow> date \<Rightarrow> string list
   \<Rightarrow> (error + date list \<times> real list) \<times> call_log" where
  "compute_spans fetch start_d end_d pls =
     (case validate_planets_spans pls of
        Inl e \<Rightarrow> (Inl e, [])
      | Inr _ \<Rightarrow> spans_loop fetch pls start_d end_d [] [] [])"

text \<open>The span that the scan computes on day \<open>d\<close>: the longitudes of the requested
  planets, in order, then \<open>_circular_span_deg\<close>.\<close>

definition day_span :: "provider \<Rightarrow> string list \<Rightarrow> date \<Rightarrow> error + real" where
  "day_span fetch pls d =
     (case fst (fetch_lons fetch d pls [] []) of
        Inl e \<Rightarrow> Inl e
      | Inr lons \<Rightarrow> basic_circular_span_deg lons)"

text \<open>Day \<open>d\<close> is a hit of the scan of \<open>[start_d, end_d]\<close>: it is sampled and the
  span computed on it is at most the threshold.\<close>

definition hit_day :: "provider \<Rightarrow> string list \<Rightarrow> real \<Rightarrow> date \<Rightarrow> date \<Rightarrow> date \<Rightarrow> bool" where
  "hit_day fetch pls thr start_d end_d d =
     (start_d \<le> d \<and> d \<le> end_d \<and>
      (case day_span fetch pls d of Inl e \<Rightarrow> False | Inr sp \<Rightarrow> sp \<le> thr))"

text \<open>A test double for the provider, used to run the scan on five days: Mars at
  longitude \<open>d\<close> degrees on day \<open>d\<close>, except \<open>50\<close> on day \<open>3\<close>; every other body
  at \<open>0\<close>.\<close>

definition demo_fetch :: provider where
  "demo_fetch body_id d =
     Inr (if body_id = ''499'' then (if d = 3 then 50 else of_int d) else 0)"

section \<open>Properties of the circular span\<close>

subsection \<open>Gaps of a list\<close>

lemma consecutive_gaps_short [simp]:
  "consecutive_gaps [] = []" "consecutive_gaps [x] = []"
  by (simp_all add: consecutive_gaps_def)

lemma consecutive_gaps_Cons2 [simp]:
  "consecutive_gaps (x # y # zs) = (y - x) # consecutive_gaps (y # zs)"
  by (simp add: consecutive_gaps_def map_upt_Suc del: upt_Suc)

lemma consecutive_gaps_append:
  "u \<noteq> [] \<Longrightarrow> v \<noteq> [] \<Longrightarrow>
   consecutive_gaps (u @ v) = consecutive_gaps u @ [hd v - last u] @ consecutive_gaps v"
proof (induction u rule: induct_list012)
  case 1 then show ?case by simp
next
  case (2 x) then show ?case by (cases v) simp_all
next
  case (3 x y zs) then show ?case by simp
qed

lemma consecutive_gaps_shift:
  "consecutive_gaps (map (\<lambda>y. y + k) a) = consecutive_gaps a"
  by (induction a rule: induct_list012) simp_all

lemma wrap_gaps_shift:
  "wrap_gaps (map (\<lambda>y. y + k) a) = wrap_gaps a"
  by (cases "a = []") (simp_all add: wrap_gaps_def consecutive_gaps_shift hd_map last_map)

lemma wrap_gaps_rotate:
  assumes "u \<noteq> []" "v \<noteq> []"
  shows "set (wrap_gaps (map (\<lambda>y. y + (k - 360)) v @ map (\<lambda>y. y + k) u)) = set (wrap_gaps (u @ v))"
  using assms
  by (auto simp add: wrap_gaps_def consecutive_gaps_append consecutive_gaps_shift hd_map last_map)

subsection \<open>Normalisation into one turn\<close>

lemma py_mod_range: "0 \<le> py_mod x 360 \<and> py_mod x 360 < 360"
proof -
  have "of_int \<lfloor>x / 360\<rfloor> \<le> x / 360" "x / 360 < of_int \<lfloor>x / 360\<rfloor> + 1" by linarith+
  then show ?thesis unfolding py_mod_def by (simp add: field_simps)
qed

lemma py_mod_unique:
  assumes "0 \<le> r" "r < 360"
  shows "py_mod (360 * of_int q + r) 360 = r"
proof -
  have "\<lfloor>(360 * of_int q + r) / 360\<rfloor> = q"
    using assms by (intro floor_unique) (simp_all add: field_simps)
  then show ?thesis by (simp add: py_mod_def)
qed

lemma py_mod_add:
  "py_mod (x + c) 360 =
     (if py_mod x 360 < 360 - py_mod c 360 then py_mod x 360 + py_mod c 360
      else py_mod x 360 + (py_mod c 360 - 360))"
proof -
  define q where "q = \<lfloor>x / 360\<rfloor> + \<lfloor>c / 360\<rfloor>"
  define r where "r = py_mod x 360 + py_mod c 360"
  have xc: "x + c = 360 * of_int q + r"
    by (simp add: q_def r_def py_mod_def algebra_simps)
  have rng: "0 \<le> r" "r < 720"
    using py_mod_range [of x] py_mod_range [of c] by (simp_all add: r_def)
  show ?thesis
  proof (cases "r < 360")
    case True
    then have "py_mod (x + c) 360 = r" using rng xc py_mod_unique by simp
    with True show ?thesis by (simp add: r_def)
  next
    case False
    have "x + c = 360 * of_int (q + 1) + (r - 360)" using xc by simp
    moreover have "0 \<le> r - 360" "r - 360 < 360" using False rng by simp_all
    ultimately have "py_mod (x + c) 360 = r - 360" using py_mod_unique by metis
    with False show ?thesis by (simp add: r_def)
  qed
qed

subsection \<open>Both span functions in closed form\<close>

lemma py_max_nonempty: "gs \<noteq> [] \<Longrightarrow> py_max gs = Inr (Max (set gs))"
  by (cases gs) (simp_all add: Max.set_eq_fold del: set_simps)

lemma normalized_Nil_iff [simp]: "normalized xs = [] \<longleftrightarrow> xs = []"
  by (metis normalized_def length_0_conv length_map length_sort)

lemma length_normalized [simp]: "length (normalized xs) = length xs"
  by (simp add: normalized_def)

lemma circular_span_deg_eq:
  "angles \<noteq> [] \<Longrightarrow>
   circular_span_deg angles = Inr (360 - Max (set (wrap_gaps (normalized angles))))"
  unfolding circular_span_deg_def Let_def normalized_def [symmetric]
  by (cases "normalized angles") (simp_all add: py_max_nonempty wrap_gaps_def del: set_simps set_append)

lemma wrap_gaps_single: "wrap_gaps [x] = [360]"
  by (simp add: wrap_gaps_def)

lemma basic_circular_span_deg_eq:
  assumes "angles \<noteq> []"
  shows "basic_circular_span_deg angles = Inr (360 - Max (set (wrap_gaps (normalized angles))))"
proof (cases "length (normalized angles) = 1")
  case True
  then obtain x where "normalized angles = [x]"
    by (cases "normalized angles") simp_all
  with assms show ?thesis
    by (simp add: basic_circular_span_deg_def normalized_def [symmetric] wrap_gaps_single)
next
  case False
  with assms show ?thesis
    unfolding basic_circular_span_deg_def Let_def normalized_def [symmetric]
    by (simp add: py_max_nonempty wrap_gaps_def hd_conv_nth del: set_simps set_append)
qed

subsection \<open>Rotation and reordering\<close>

lemma sorted_split_filter:
  fixes a :: "real list"
  assumes "sorted a"
  shows "a = filter (\<lambda>y. y < t) a @ filter (\<lambda>y. \<not> y < t) a"
proof -
  have "sort a = filter (\<lambda>y. y < t) a @ filter (\<lambda>y. \<not> y < t) a"
    using assms by (intro properties_for_sort) (auto simp add: sorted_append sorted_wrt_filter)
  then show ?thesis using assms by (simp add: sort_key_id_if_sorted)
qed

lemma mset_split_map:
  "mset (map f (filter (\<lambda>y. \<not> P y) a) @ map g (filter P a)) =
   mset (map (\<lambda>y. if P y then g y else f y) a)"
  by (induction a) simp_all

lemma normalized_rotate:
  fixes c :: real
  defines "k \<equiv> py_mod c 360"
  shows "normalized (map (\<lambda>x. x + c) xs) =
         map (\<lambda>y. y + (k - 360)) (filter (\<lambda>y. \<not> y < 360 - k) (normalized xs)) @
         map (\<lambda>y. y + k) (filter (\<lambda>y. y < 360 - k) (normalized xs))"
    (is "_ = ?R")
proof -
  let ?a = "normalized xs"
  have a_set: "\<And>y. y \<in> set ?a \<Longrightarrow> 0 \<le> y \<and> y < 360"
    using py_mod_range by (auto simp add: normalized_def)
  have krange: "0 \<le> k" "k < 360" using py_mod_range [of c] by (simp_all add: k_def)
  have "mset ?R = mset (map (\<lambda>y. if y < 360 - k then y + k else y + (k - 360)) ?a)"
    by (rule mset_split_map)
  also have "\<dots> = image_mset (\<lambda>y. if y < 360 - k then y + k else y + (k - 360))
                     (image_mset (\<lambda>x. py_mod x 360) (mset xs))"
    by (simp add: normalized_def)
  also have "\<dots> = mset (map (\<lambda>x. py_mod x 360) (map (\<lambda>x. x + c) xs))"
    unfolding k_def by (simp add: multiset.map_comp comp_def py_mod_add)
  finally have ms: "mset ?R = mset (map (\<lambda>x. py_mod x 360) (map (\<lambda>x. x + c) xs))" .
  have sa: "sorted ?a" by (simp add: normalized_def)
  have cross: "x - 360 \<le> y" if "x \<in> set ?a" "y \<in> set ?a" for x y
    using a_set [OF that(1)] a_set [OF that(2)] by simp
  have "sorted ?R"
    using krange sa cross
    by (auto simp add: sorted_append sorted_wrt_filter sorted_map intro!: sorted_wrt_mono_rel [of _ "(\<le>)"])
  with ms show ?thesis unfolding normalized_def [of "map _ xs"] by (rule properties_for_sort)
qed

lemma wrap_gaps_normalized_rotate:
  "set (wrap_gaps (normalized (map (\<lambda>x. x + c) xs))) = set (wrap_gaps (normalized xs))"
proof -
  define k where "k = py_mod c 360"
  define u where "u = filter (\<lambda>y. y < 360 - k) (normalized xs)"
  define v where "v = filter (\<lambda>y. \<not> y < 360 - k) (normalized xs)"
  have a: "normalized xs = u @ v"
    unfolding u_def v_def by (rule sorted_split_filter) (simp add: normalized_def)
  have b: "normalized (map (\<lambda>x. x + c) xs) = map (\<lambda>y. y + (k - 360)) v @ map (\<lambda>y. y + k) u"
    unfolding u_def v_def k_def by (rule normalized_rotate)
  show ?thesis
  proof (cases "u = [] \<or> v = []")
    case True
    then show ?thesis using a b by (auto simp add: wrap_gaps_shift)
  next
    case False
    then show ?thesis using a b wrap_gaps_rotate [of u v k] by simp
  qed
qed

lemma normalized_perm: "mset xs = mset ys \<Longrightarrow> normalized xs = normalized ys"
  unfolding normalized_def
proof (intro properties_for_sort)
  assume "mset xs = mset ys"
  then have "image_mset (\<lambda>x. py_mod x 360) (mset xs) = image_mset (\<lambda>x. py_mod x 360) (mset ys)"
    by simp
  then show "mset (sort (map (\<lambda>x. py_mod x 360) ys)) = mset (map (\<lambda>x. py_mod x 360) xs)"
    by simp
qed simp

subsection \<open>Bounds, and evenly spaced angles\<close>

lemma set_consecutive_gaps:
  "set (consecutive_gaps a) = {a ! (i + 1) - a ! i | i. i + 1 < length a}"
  by (auto simp add: consecutive_gaps_def)

lemma set_wrap_gaps: "a \<noteq> [] \<Longrightarrow> set (wrap_gaps a) = spec_gap_set a"
  by (simp add: wrap_gaps_def spec_gap_set_def set_consecutive_gaps hd_conv_nth last_conv_nth Un_commute)

lemma normalized_set_range: "y \<in> set (normalized xs) \<Longrightarrow> 0 \<le> y \<and> y < 360"
  using py_mod_range by (auto simp add: normalized_def)

lemma wrap_gaps_bounds:
  assumes "xs \<noteq> []" and "g \<in> set (wrap_gaps (normalized xs))"
  shows "g \<le> 360"
proof -
  let ?a = "normalized xs"
  have ne: "?a \<noteq> []" using assms by simp
  have srt: "sorted ?a" by (simp add: normalized_def)
  from assms(2) consider (gap) i where "i + 1 < length ?a" "g = ?a ! (i + 1) - ?a ! i"
    | (wrap) "g = hd ?a + 360 - last ?a"
    by (auto simp add: wrap_gaps_def set_consecutive_gaps)
  then show ?thesis
  proof cases
    case gap
    then have "?a ! (i + 1) \<in> set ?a" "?a ! i \<in> set ?a" by simp_all
    then have "?a ! (i + 1) < 360" "0 \<le> ?a ! i"
      using normalized_set_range by blast+
    then show ?thesis using gap by simp
  next
    case wrap
    have "hd ?a \<le> last ?a"
      using srt ne by (metis hd_conv_nth last_conv_nth sorted_nth_mono diff_less length_greater_0_conv less_one zero_le le_refl less_imp_diff_less)
    then show ?thesis using wrap by simp
  qed
qed

lemma wrap_gap_positive:
  assumes "xs \<noteq> []"
  shows "0 < hd (normalized xs) + 360 - last (normalized xs)"
proof -
  have "hd (normalized xs) \<in> set (normalized xs)" "last (normalized xs) \<in> set (normalized xs)"
    using assms by simp_all
  then have "0 \<le> hd (normalized xs)" "last (normalized xs) < 360"
    using normalized_set_range by blast+
  then show ?thesis by simp
qed

lemma Max_wrap_gaps_range:
  assumes "xs \<noteq> []"
  shows "0 < Max (set (wrap_gaps (normalized xs)))" "Max (set (wrap_gaps (normalized xs))) \<le> 360"
proof -
  let ?G = "set (wrap_gaps (normalized xs))"
  have fin: "finite ?G" "?G \<noteq> {}" by (simp_all add: wrap_gaps_def)
  have "hd (normalized xs) + 360 - last (normalized xs) \<in> ?G" by (simp add: wrap_gaps_def)
  then have "hd (normalized xs) + 360 - last (normalized xs) \<le> Max ?G" using fin by simp
  then show "0 < Max ?G" using wrap_gap_positive [OF assms] by linarith
  show "Max ?G \<le> 360" using fin wrap_gaps_bounds [OF assms] by simp
qed

lemma spec_circular_span_eq:
  "2 \<le> length xs \<Longrightarrow> spec_circular_span xs = 360 - Max (set (wrap_gaps (normalized xs)))"
proof -
  assume len: "2 \<le> length xs"
  then have "normalized xs \<noteq> []" by auto
  then have "set (wrap_gaps (normalized xs)) = spec_gap_set (normalized xs)"
    by (rule set_wrap_gaps)
  with len show ?thesis
    by (simp add: spec_circular_span_def normalized_def [unfolded py_mod_def])
qed

lemma normalized_evenly_spaced_0:
  assumes "0 < n"
  shows "normalized (evenly_spaced n 0) = evenly_spaced n 0"
proof -
  have id: "py_mod (360 * real i / real n) 360 = 360 * real i / real n" if "i < n" for i
  proof -
    have "0 \<le> 360 * real i / real n" "360 * real i / real n < 360"
      using that assms by (simp_all add: field_simps)
    then show ?thesis using py_mod_unique [of "360 * real i / real n" 0] by simp
  qed
  have "map (\<lambda>x. py_mod x 360) (evenly_spaced n 0) = evenly_spaced n 0"
    by (simp add: evenly_spaced_def id)
  moreover have "sorted (evenly_spaced n 0)"
    using assms by (auto simp add: evenly_spaced_def sorted_map field_simps intro!: sorted_wrt_mono_rel [OF _ sorted_upt])
  ultimately show ?thesis by (simp add: normalized_def sort_key_id_if_sorted)
qed

lemma wrap_gaps_evenly_spaced_0:
  assumes "0 < n"
  shows "set (wrap_gaps (evenly_spaced n 0)) = {360 / real n}"
proof -
  have ne: "evenly_spaced n 0 \<noteq> []" using assms by (simp add: evenly_spaced_def)
  have "spec_gap_set (evenly_spaced n 0) = {360 / real n}"
    using assms
    by (auto simp add: spec_gap_set_def evenly_spaced_def field_simps)
  then show ?thesis using set_wrap_gaps [OF ne] by simp
qed

lemma evenly_spaced_shift: "evenly_spaced n \<theta> = map (\<lambda>x. x + \<theta>) (evenly_spaced n 0)"
  by (simp add: evenly_spaced_def add.commute)

lemma Max_wrap_gaps_evenly_spaced:
  assumes "0 < n"
  shows "Max (set (wrap_gaps (normalized (evenly_spaced n \<theta>)))) = 360 / real n"
  using assms
  by (simp add: evenly_spaced_shift [of n \<theta>] wrap_gaps_normalized_rotate
      normalized_evenly_spaced_0 wrap_gaps_evenly_spaced_0)

lemma span_singleton: "basic_circular_span_deg [x] = Inr 0" "circular_span_deg [x] = Inr 0"
  by (simp_all add: basic_circular_span_deg_def circular_span_deg_def)

subsection \<open>Claims about the circular span\<close>

text \<open>
  C2 (as amended). For every list of two or more angles, both span functions return
  \<open>360\<close> minus the largest gap between consecutive sorted normalised angles, the
  wrap-around gap included, and that value lies in \<open>[0, 360)\<close>. For a list of one
  angle both return \<open>0\<close>, and \<open>_circular_span_deg\<close> returns \<open>0\<close> for the empty list.
  The bound \<open>180\<close> of the claim does not hold: see the counterexample below.
\<close>

theorem circular_span_closed_form_and_range:
  "(2 \<le> length xs \<longrightarrow>
      basic_circular_span_deg xs = Inr (spec_circular_span xs) \<and>
      circular_span_deg xs = Inr (spec_circular_span xs) \<and>
      0 \<le> spec_circular_span xs \<and> spec_circular_span xs < 360) \<and>
   (length xs = 1 \<longrightarrow> basic_circular_span_deg xs = Inr 0 \<and> circular_span_deg xs = Inr 0) \<and>
   basic_circular_span_deg [] = Inr 0"
proof (intro conjI impI)
  assume len: "2 \<le> length xs"
  then have ne: "xs \<noteq> []" by auto
  show "basic_circular_span_deg xs = Inr (spec_circular_span xs)"
    using basic_circular_span_deg_eq [OF ne] spec_circular_span_eq [OF len] by simp
  show "circular_span_deg xs = Inr (spec_circular_span xs)"
    using circular_span_deg_eq [OF ne] spec_circular_span_eq [OF len] by simp
  show "0 \<le> spec_circular_span xs" "spec_circular_span xs < 360"
    using Max_wrap_gaps_range [OF ne] spec_circular_span_eq [OF len] by simp_all
next
  assume "length xs = 1"
  then obtain x where "xs = [x]" by (cases xs) simp_all
  then show "basic_circular_span_deg xs = Inr 0" "circular_span_deg xs = Inr 0"
    by (simp_all add: span_singleton)
next
  show "basic_circular_span_deg [] = Inr 0" by (simp add: basic_circular_span_deg_def)
qed

text \<open>The theorem at the inputs \<open>[10, 15, 5]\<close> and \<open>[7]\<close>.\<close>

theorem circular_span_closed_form_and_range_witness:
  "spec_circular_span [10, 15, 5] = 10 \<and> circular_span_deg [10, 15, 5] = Inr 10 \<and>
   circular_span_deg [7] = Inr 0"
proof -
  have "basic_circular_span_deg [10, 15, 5] = Inr 10"
    by (simp add: basic_circular_span_deg_def consecutive_gaps_def py_mod_def)
  then show ?thesis
    using circular_span_closed_form_and_range [of "[10, 15, 5]"]
      circular_span_closed_form_and_range [of "[7]"]
    by simp
qed

text \<open>
  Counterexample to C2 as stated: the three angles \<open>0, 120, 240\<close> have span \<open>240\<close>,
  outside \<open>[0, 180]\<close>.
\<close>

theorem circular_span_exceeds_180:
  "basic_circular_span_deg [0, 120, 240] = Inr 240 \<and> circular_span_deg [0, 120, 240] = Inr 240 \<and>
   basic_circular_span_deg [0, 120, 240] \<notin> Inr ` {0..180} \<and>
   circular_span_deg [0, 120, 240] \<notin> Inr ` {0..180}"
  by (simp add: basic_circular_span_deg_def circular_span_deg_def consecutive_gaps_def py_mod_def image_iff)

text \<open>
  C3. For every \<open>n \<ge> 2\<close> and every starting angle, the span of \<open>n\<close> evenly spaced
  angles is \<open>360 (n - 1) / n\<close>; two antipodal angles have span \<open>180\<close> and four evenly
  spaced angles have span \<open>270\<close>.
\<close>

theorem circular_span_evenly_spaced:
  "(2 \<le> n \<longrightarrow>
      basic_circular_span_deg (evenly_spaced n \<theta>) = Inr (360 * (real n - 1) / real n) \<and>
      circular_span_deg (evenly_spaced n \<theta>) = Inr (360 * (real n - 1) / real n)) \<and>
   basic_circular_span_deg [\<theta>, \<theta> + 180] = Inr 180 \<and>
   circular_span_deg [\<theta>, \<theta> + 180] = Inr 180 \<and>
   basic_circular_span_deg [\<theta>, \<theta> + 90, \<theta> + 180, \<theta> + 270] = Inr 270 \<and>
   circular_span_deg [\<theta>, \<theta> + 90, \<theta> + 180, \<theta> + 270] = Inr 270"
proof -
  have gen: "basic_circular_span_deg (evenly_spaced m \<theta>) = Inr (360 * (real m - 1) / real m) \<and>
      circular_span_deg (evenly_spaced m \<theta>) = Inr (360 * (real m - 1) / real m)"
    if "2 \<le> m" for m
  proof -
    have pos: "0 < m" using that by simp
    then have ne: "evenly_spaced m \<theta> \<noteq> []" by (simp add: evenly_spaced_def)
    have "360 - 360 / real m = 360 * (real m - 1) / real m"
      using pos by (simp add: field_simps)
    then show ?thesis
      using basic_circular_span_deg_eq [OF ne] circular_span_deg_eq [OF ne]
        Max_wrap_gaps_evenly_spaced [OF pos, of \<theta>]
      by simp
  qed
  have two: "evenly_spaced 2 \<theta> = [\<theta>, \<theta> + 180]"
    by (simp add: evenly_spaced_def upt_conv_Cons)
  have four: "evenly_spaced 4 \<theta> = [\<theta>, \<theta> + 90, \<theta> + 180, \<theta> + 270]"
    by (simp add: evenly_spaced_def upt_conv_Cons)
  show ?thesis
    using gen [of n] gen [of 2] gen [of 4] by (simp add: two four)
qed

text \<open>The theorem at \<open>n = 3\<close>: the angles \<open>0, 120, 240\<close>.\<close>

theorem circular_span_evenly_spaced_witness:
  "basic_circular_span_deg (evenly_spaced 3 0) = Inr 240 \<and>
   circular_span_deg (evenly_spaced 3 0) = Inr 240 \<and> evenly_spaced 3 0 = [0, 120, 240]"
  using circular_span_evenly_spaced [of 3 0]
  by (simp add: evenly_spaced_def upt_conv_Cons)

text \<open>
  C8. Both span functions are invariant under adding a constant to every angle and
  under reordering the list (two lists with the same multiset of elements).
\<close>

theorem circular_span_rotation_permutation:
  "basic_circular_span_deg (map (\<lambda>x. x + c) xs) = basic_circular_span_deg xs \<and>
   circular_span_deg (map (\<lambda>x. x + c) xs) = circular_span_deg xs \<and>
   (mset ys = mset xs \<longrightarrow>
      basic_circular_span_deg ys = basic_circular_span_deg xs \<and>
      circular_span_deg ys = circular_span_deg xs)"
proof (intro conjI impI)
  show "basic_circular_span_deg (map (\<lambda>x. x + c) xs) = basic_circular_span_deg xs"
  proof (cases "xs = []")
    case True then show ?thesis by simp
  next
    case False
    then have "map (\<lambda>x. x + c) xs \<noteq> []" by simp
    then show ?thesis
      using False by (simp add: basic_circular_span_deg_eq wrap_gaps_normalized_rotate)
  qed
  show "circular_span_deg (map (\<lambda>x. x + c) xs) = circular_span_deg xs"
  proof (cases "xs = []")
    case True then show ?thesis by simp
  next
    case False
    then have "map (\<lambda>x. x + c) xs \<noteq> []" by simp
    then show ?thesis
      using False by (simp add: circular_span_deg_eq wrap_gaps_normalized_rotate)
  qed
next
  assume ms: "mset ys = mset xs"
  then have nil: "ys = [] \<longleftrightarrow> xs = []" by (metis mset_zero_iff)
  have norm: "normalized ys = normalized xs" using ms by (rule normalized_perm)
  show "basic_circular_span_deg ys = basic_circular_span_deg xs"
  proof (cases "xs = []")
    case True then show ?thesis using nil by simp
  next
    case False
    then show ?thesis using nil norm by (simp add: basic_circular_span_deg_eq)
  qed
  show "circular_span_deg ys = circular_span_deg xs"
  proof (cases "xs = []")
    case True then show ?thesis using nil by simp
  next
    case False
    then show ?thesis using nil norm by (simp add: circular_span_deg_eq)
  qed
qed

text \<open>The theorem at the list \<open>[10, 15, 5]\<close>, rotated by \<open>400\<close> and sorted.\<close>

theorem circular_span_rotation_permutation_witness:
  "basic_circular_span_deg (map (\<lambda>x. x + 400) [10, 15, 5]) = basic_circular_span_deg [10, 15, 5] \<and>
   mset [5, 10, 15 :: real] = mset [10, 15, 5] \<and>
   circular_span_deg [5, 10, 15] = circular_span_deg [10, 15, 5]"
  using circular_span_rotation_permutation [of 400 "[10, 15, 5]" "[5, 10, 15]"]
  by simp

text \<open>
  C9. Fewer than two angles must give span \<open>0\<close> without an error. On the empty list
  \<open>circular_span_deg\<close> of \<open>eclipse2.py\<close> raises \<open>IndexError\<close>, where
  \<open>_circular_span_deg\<close> returns \<open>0\<close>.
\<close>

theorem circular_span_deg_empty_raises:
  "circular_span_deg [] = Inl IndexError \<and> basic_circular_span_deg [] = Inr 0"
  by (simp add: circular_span_deg_def basic_circular_span_deg_def)

section \<open>Properties of the calendar conversion\<close>

lemma py_int_nonneg: "0 \<le> x \<Longrightarrow> py_int x = \<lfloor>x\<rfloor>"
  by (simp add: py_int_def)

lemma floor_div_100: "\<lfloor>real_of_int k / 100\<rfloor> = k div 100"
  using floor_divide_of_int_eq [of k 100] by simp

lemma floor_div_4: "\<lfloor>real_of_int k / 4\<rfloor> = k div 4"
  using floor_divide_of_int_eq [of k 4] by simp

text \<open>
  C4. On every \<open>datetime\<close> value, \<open>jd_from_datetime\<close> is the standard Julian Day
  algorithm of the specification (month \<open>\<le> 2\<close> becomes month \<open>+ 12\<close> of the previous
  year, \<open>A = floor(year/100)\<close>, \<open>B = 2 - A + floor(A/4)\<close>, and the sum of the two
  floors, the day with its fraction, \<open>B\<close> and \<open>-1524.5\<close>); it maps 2000-01-01 12:00
  to \<open>2451545\<close>.
\<close>

theorem jd_from_datetime_standard:
  "(valid_datetime dt \<longrightarrow>
      jd_from_datetime dt =
        spec_julian_day (year dt) (month dt) (day dt) (hour dt) (minute dt)) \<and>
   jd_from_datetime \<lparr>year = 2000, month = 1, day = 1, hour = 12, minute = 0\<rparr> = 2451545"
proof (intro conjI impI)
  assume v: "valid_datetime dt"
  then have y: "1 \<le> year dt" and m: "1 \<le> month dt" by (simp_all add: valid_datetime_def)
  show "jd_from_datetime dt =
        spec_julian_day (year dt) (month dt) (day dt) (hour dt) (minute dt)"
  proof (cases "month dt \<le> 2")
    case True
    have "0 \<le> 365.25 * real_of_int (year dt - 1 + 4716)" using y by simp
    moreover have "0 \<le> 30.6001 * real_of_int (month dt + 12 + 1)" using m by simp
    ultimately show ?thesis
      using True
      by (simp add: jd_from_datetime_def spec_julian_day_def Let_def py_int_nonneg
          floor_div_100 floor_div_4)
  next
    case False
    have "0 \<le> 365.25 * real_of_int (year dt + 4716)" using y by simp
    moreover have "0 \<le> 30.6001 * real_of_int (month dt + 1)" using m by simp
    ultimately show ?thesis
      using False
      by (simp add: jd_from_datetime_def spec_julian_day_def Let_def py_int_nonneg
          floor_div_100 floor_div_4)
  qed
next
  have a: "\<lfloor>365.25 * real_of_int 6715\<rfloor> = 2452653" by (rule floor_unique) simp_all
  have b: "\<lfloor>30.6001 * real_of_int 14\<rfloor> = 428" by (rule floor_unique) simp_all
  show "jd_from_datetime \<lparr>year = 2000, month = 1, day = 1, hour = 12, minute = 0\<rparr> = 2451545"
    using a b by (simp add: jd_from_datetime_def Let_def py_int_def)
qed

text \<open>The theorem at 2000-01-01 12:00, a valid \<open>datetime\<close>.\<close>

theorem jd_from_datetime_standard_witness:
  "valid_datetime \<lparr>year = 2000, month = 1, day = 1, hour = 12, minute = 0\<rparr> \<and>
   spec_julian_day 2000 1 1 12 0 = 2451545"
  using jd_from_datetime_standard [of "\<lparr>year = 2000, month = 1, day = 1, hour = 12, minute = 0\<rparr>"]
  by (simp add: valid_datetime_def)

section \<open>Properties of the orbital mechanics and the candidate generator\<close>

text \<open>
  C6. With equal mean motions the candidate loop fails with \<open>ZeroDivisionError\<close> on
  its first iteration; it never returns a list, empty or not.
\<close>

theorem candidates_equal_mean_motion_fails:
  "candidates t0 lam_ref lam_seed n n lo hi = Inl ZeroDivisionError"
proof -
  have "[-200..199] = -200 # [-199..199]" by (simp add: upto_rec1)
  then show ?thesis by (simp add: candidates_def py_truediv_def)
qed

text \<open>
  C7 (as amended). \<open>mean_longitude\<close> returns
  \<open>(Omega_deg + w_deg + M_deg) mod 360\<close> converted to radians, a value in
  \<open>[0, 2 pi)\<close>.
\<close>

theorem mean_longitude_radians:
  "mean_longitude el = (Omega_deg el + w_deg el + M_deg el
       - 360 * of_int \<lfloor>(Omega_deg el + w_deg el + M_deg el) / 360\<rfloor>) * pi / 180 \<and>
   0 \<le> mean_longitude el \<and> mean_longitude el < 2 * pi"
proof -
  let ?s = "Omega_deg el + w_deg el + M_deg el"
  have r: "0 \<le> py_mod ?s 360" "py_mod ?s 360 < 360" using py_mod_range [of ?s] by simp_all
  have "py_mod ?s 360 * pi < 360 * pi" using r(2) pi_gt_zero by simp
  then show ?thesis using r(1) by (simp add: mean_longitude_def radians_def py_mod_def)
qed

text \<open>
  Counterexample to C7 as stated: for elements with sum \<open>180\<close> degrees the function
  returns \<open>pi\<close>, not \<open>180 mod 360\<close>.
\<close>

theorem mean_longitude_not_degrees:
  "mean_longitude \<lparr>epoch_jd = 0, a_km = 1, Omega_deg = 0, w_deg = 0, M_deg = 180\<rparr> = pi \<and>
   mean_longitude \<lparr>epoch_jd = 0, a_km = 1, Omega_deg = 0, w_deg = 0, M_deg = 180\<rparr>
     \<noteq> py_mod (0 + 0 + 180) 360"
proof -
  have f: "\<lfloor>(1::real) / 2\<rfloor> = 0" by simp
  have m: "py_mod 180 360 = 180" by (simp add: py_mod_def f)
  have "pi \<noteq> 180" using pi_less_4 by simp
  then show ?thesis by (simp add: mean_longitude_def radians_def m)
qed

section \<open>Properties of the validation\<close>

lemma validate_planets_unknown:
  "\<not> set pls \<subseteq> set (map fst PLANET_IDS) \<Longrightarrow>
   \<exists>known p rest. pls = known @ p # rest \<and> set known \<subseteq> set (map fst PLANET_IDS) \<and>
     p \<notin> set (map fst PLANET_IDS) \<and>
     validate_planets pls = Inl (UnknownPlanetAvailable p (map fst PLANET_IDS))"
proof (induction pls)
  case Nil
  then show ?case by simp
next
  case (Cons q qs)
  show ?case
  proof (cases "q \<in> set (map fst PLANET_IDS)")
    case False
    then have "q # qs = [] @ q # qs \<and> set [] \<subseteq> set (map fst PLANET_IDS) \<and>
        q \<notin> set (map fst PLANET_IDS) \<and>
        validate_planets (q # qs) = Inl (UnknownPlanetAvailable q (map fst PLANET_IDS))"
      by simp
    then show ?thesis by blast
  next
    case True
    with Cons.prems have "\<not> set qs \<subseteq> set (map fst PLANET_IDS)" by simp
    from Cons.IH [OF this] obtain known p rest where
      h: "qs = known @ p # rest" "set known \<subseteq> set (map fst PLANET_IDS)"
         "p \<notin> set (map fst PLANET_IDS)"
         "validate_planets qs = Inl (UnknownPlanetAvailable p (map fst PLANET_IDS))"
      by blast
    with True have "q # qs = (q # known) @ p # rest \<and>
        set (q # known) \<subseteq> set (map fst PLANET_IDS) \<and> p \<notin> set (map fst PLANET_IDS) \<and>
        validate_planets (q # qs) = Inl (UnknownPlanetAvailable p (map fst PLANET_IDS))"
      by simp
    then show ?thesis by blast
  qed
qed

lemma list_planetary_alignments_unknown:
  assumes "\<not> set pls \<subseteq> set (map fst PLANET_IDS)"
  shows "\<exists>p \<in> set pls. p \<notin> set (map fst PLANET_IDS) \<and>
     list_planetary_alignments fetch start_d end_d pls thr =
       (Inl (UnknownPlanetAvailable p (map fst PLANET_IDS)), [])"
proof -
  from validate_planets_unknown [OF assms] obtain known p rest where
    "pls = known @ p # rest" "p \<notin> set (map fst PLANET_IDS)"
    "validate_planets pls = Inl (UnknownPlanetAvailable p (map fst PLANET_IDS))"
    by blast
  then have "p \<in> set pls \<and> p \<notin> set (map fst PLANET_IDS) \<and>
     list_planetary_alignments fetch start_d end_d pls thr =
       (Inl (UnknownPlanetAvailable p (map fst PLANET_IDS)), [])"
    by (simp add: list_planetary_alignments_def)
  then show ?thesis by blast
qed

lemma validate_planets_spans_unknown:
  "\<not> set pls \<subseteq> set (map fst PLANET_IDS) \<Longrightarrow>
   \<exists>p \<in> set pls. p \<notin> set (map fst PLANET_IDS) \<and> validate_planets_spans pls = Inl (UnknownPlanet p)"
  by (induction pls) auto

lemma compute_spans_unknown:
  assumes "\<not> set pls \<subseteq> set (map fst PLANET_IDS)"
  shows "\<exists>p \<in> set pls. p \<notin> set (map fst PLANET_IDS) \<and>
     compute_spans fetch start_d end_d pls = (Inl (UnknownPlanet p), [])"
  using validate_planets_spans_unknown [OF assms]
  by (auto simp add: compute_spans_def)

text \<open>
  C5. A planet list with an unknown name must fail before any provider call, with an
  error that lists the valid identifiers. Both entry points fail with an empty call
  log; \<open>list_planetary_alignments\<close> lists the identifiers, but the error of
  \<open>compute_spans\<close> carries the unknown name only.
\<close>

theorem unknown_planet_errors:
  "list_planetary_alignments fetch start_d end_d [''Mars'', ''Pluto''] thr =
     (Inl (UnknownPlanetAvailable ''Pluto''
        [''Mercury'', ''Venus'', ''Mars'', ''Jupiter'', ''Saturn'', ''Uranus'', ''Neptune'']), []) \<and>
   compute_spans fetch start_d end_d [''Mars'', ''Pluto''] = (Inl (UnknownPlanet ''Pluto''), [])"
  by (simp add: list_planetary_alignments_def compute_spans_def PLANET_IDS_def)

section \<open>Properties of the exhaustive scan\<close>

subsection \<open>The hits collected by the scan\<close>

lemma fetch_lons_fst_calls:
  "fst (fetch_lons fetch d ps lons c1) = fst (fetch_lons fetch d ps lons c2)"
  by (induction ps arbitrary: lons c1 c2) (auto split: option.splits sum.splits)

lemma day_span_of_fetch:
  "fst (fetch_lons fetch d pls [] calls) = Inr lons \<Longrightarrow>
   day_span fetch pls d = basic_circular_span_deg lons"
  using fetch_lons_fst_calls [of fetch d pls "[]" calls "[]"]
  by (simp add: day_span_def)

subsection \<open>The merge loop\<close>

lemma merge_hits_acc:
  "merge_hits pls hs cs ce cm ivs =
     (case merge_hits pls hs cs ce cm [] of Inl e \<Rightarrow> Inl e | Inr new \<Rightarrow> Inr (ivs @ new))"
proof (induction hs arbitrary: cs ce cm ivs)
  case Nil
  show ?case by simp
next
  case (Cons h rest)
  obtain d sp where h: "h = (d, sp)" by (cases h)
  let ?x = "\<lparr>start = cs, end_day = ce, planets = pls, max_span_deg = cm\<rparr>"
  show ?case
  proof (cases "date_max \<le> ce")
    case True
    then show ?thesis by (simp add: h)
  next
    case over: False
    show ?thesis
    proof (cases "d = ce + 1")
      case True
      then show ?thesis using over Cons.IH [of cs d "max cm sp" ivs] by (simp add: h)
    next
      case False
      have "merge_hits pls (h # rest) cs ce cm ivs = merge_hits pls rest d d sp (ivs @ [?x])"
        using over False by (simp add: h)
      also have "\<dots> = (case merge_hits pls rest d d sp [] of
                          Inl e \<Rightarrow> Inl e | Inr new \<Rightarrow> Inr ((ivs @ [?x]) @ new))"
        by (rule Cons.IH)
      finally have lhs: "merge_hits pls (h # rest) cs ce cm ivs =
          (case merge_hits pls rest d d sp [] of
             Inl e \<Rightarrow> Inl e | Inr new \<Rightarrow> Inr (ivs @ ?x # new))"
        by (simp split: sum.splits)
      have "merge_hits pls (h # rest) cs ce cm [] = merge_hits pls rest d d sp [?x]"
        using over False by (simp add: h)
      also have "\<dots> = (case merge_hits pls rest d d sp [] of
                          Inl e \<Rightarrow> Inl e | Inr new \<Rightarrow> Inr ([?x] @ new))"
        by (rule Cons.IH)
      finally have rhs: "merge_hits pls (h # rest) cs ce cm [] =
          (case merge_hits pls rest d d sp [] of
             Inl e \<Rightarrow> Inl e | Inr new \<Rightarrow> Inr (?x # new))"
        by (simp split: sum.splits)
      show ?thesis unfolding lhs rhs by (simp split: sum.splits)
    qed
  qed
qed

lemma scan_days_hits:
  "fst (scan_days fetch pls thr d e hits calls) = Inr out \<Longrightarrow>
   \<exists>new. out = hits @ new \<and> sorted_wrt (<) (map fst new) \<and>
     (\<forall>(x, sp) \<in> set new. d \<le> x \<and> x \<le> e \<and> day_span fetch pls x = Inr sp \<and> sp \<le> thr) \<and>
     (\<forall>x. d \<le> x \<and> x \<le> e \<longrightarrow>
        (\<exists>sp. day_span fetch pls x = Inr sp \<and> (sp \<le> thr \<longrightarrow> (x, sp) \<in> set new)))"
proof (induction fetch pls thr d e hits calls arbitrary: out rule: scan_days.induct)
  case (1 fetch pls thr d e hits calls)
  show ?case
  proof (cases "d \<le> e")
    case False
    with "1.prems" have "out = hits" by (simp add: scan_days.simps [of fetch pls thr d e])
    with False show ?thesis by simp
  next
    case True
    obtain r calls' where fl: "fetch_lons fetch d pls [] calls = (r, calls')"
      by (cases "fetch_lons fetch d pls [] calls")
    from "1.prems" True fl obtain lons where r: "r = Inr lons"
      by (cases r) (simp_all add: scan_days.simps [of fetch pls thr d e])
    from "1.prems" True fl r obtain sp where sp: "basic_circular_span_deg lons = Inr sp"
      by (cases "basic_circular_span_deg lons") (simp_all add: scan_days.simps [of fetch pls thr d e])
    from "1.prems" True fl r sp have nover: "\<not> date_max \<le> d"
      by (auto simp add: scan_days.simps [of fetch pls thr d e] split: if_splits)
    let ?hits' = "if sp \<le> thr then hits @ [(d, sp)] else hits"
    from "1.prems" True fl r sp nover
    have rec: "fst (scan_days fetch pls thr (d + 1) e ?hits' calls') = Inr out"
      by (simp add: scan_days.simps [of fetch pls thr d e])
    have ds: "day_span fetch pls d = Inr sp"
      using day_span_of_fetch [of fetch d pls calls lons] fl r sp by simp
    from "1.IH" [OF True fl [symmetric] r sp nover rec]
    obtain new where new: "out = ?hits' @ new" "sorted_wrt (<) (map fst new)"
      "\<forall>(x, s) \<in> set new. d + 1 \<le> x \<and> x \<le> e \<and> day_span fetch pls x = Inr s \<and> s \<le> thr"
      "\<forall>x. d + 1 \<le> x \<and> x \<le> e \<longrightarrow>
        (\<exists>s. day_span fetch pls x = Inr s \<and> (s \<le> thr \<longrightarrow> (x, s) \<in> set new))"
      by blast
    let ?new = "if sp \<le> thr then (d, sp) # new else new"
    have a: "out = hits @ ?new" using new(1) by simp
    have b: "sorted_wrt (<) (map fst ?new)" using new(2,3) by (auto split: if_splits)
    have c: "\<forall>(x, s) \<in> set ?new. d \<le> x \<and> x \<le> e \<and> day_span fetch pls x = Inr s \<and> s \<le> thr"
      using new(3) True ds by (auto split: if_splits)
    have d: "\<forall>x. d \<le> x \<and> x \<le> e \<longrightarrow>
        (\<exists>s. day_span fetch pls x = Inr s \<and> (s \<le> thr \<longrightarrow> (x, s) \<in> set ?new))"
    proof (intro allI impI)
      fix x assume x: "d \<le> x \<and> x \<le> e"
      show "\<exists>s. day_span fetch pls x = Inr s \<and> (s \<le> thr \<longrightarrow> (x, s) \<in> set ?new)"
      proof (cases "x = d")
        case True
        then show ?thesis using ds by simp
      next
        case False
        with x have "d + 1 \<le> x \<and> x \<le> e" by simp
        with new(4) obtain s where "day_span fetch pls x = Inr s" "s \<le> thr \<longrightarrow> (x, s) \<in> set new"
          by blast
        then show ?thesis by auto
      qed
    qed
    from a b c d show ?thesis by blast
  qed
qed

lemma Max_image_extend:
  fixes f :: "int \<Rightarrow> real"
  assumes "cs \<le> ce"
  shows "Max (f ` {cs..ce + 1}) = max (Max (f ` {cs..ce})) (f (ce + 1))"
proof -
  have "{cs..ce + 1} = insert (ce + 1) {cs..ce}" using assms by auto
  then have "f ` {cs..ce + 1} = insert (f (ce + 1)) (f ` {cs..ce})" by simp
  moreover have "finite (f ` {cs..ce})" "f ` {cs..ce} \<noteq> {}" using assms by simp_all
  ultimately show ?thesis by (simp add: max.commute)
qed

lemma merge_hits_invariant:
  fixes f :: "date \<Rightarrow> real" and H :: "date set"
  assumes "merge_hits pls hs cs ce cm [] = Inr out"
    and "cs \<le> ce" and "{cs..ce} \<subseteq> H" and "cm = Max (f ` {cs..ce})"
    and "sorted_wrt (<) (ce # map fst hs)"
    and "\<forall>(x, sp) \<in> set hs. x \<in> H \<and> f x = sp"
  shows "out \<noteq> [] \<and> start (hd out) = cs \<and>
    (\<forall>iv \<in> set out. cs \<le> start iv \<and> start iv \<le> end_day iv \<and>
       {start iv..end_day iv} \<subseteq> H \<and> max_span_deg iv = Max (f ` {start iv..end_day iv}) \<and>
       planets iv = pls \<and> end_day iv \<in> insert ce (fst ` set hs)) \<and>
    (\<forall>i. i + 1 < length out \<longrightarrow>
       end_day (out ! i) + 2 \<le> start (out ! (i + 1)) \<and>
       end_day (out ! i) + 1 \<notin> fst ` set hs)"
  using assms
proof (induction hs arbitrary: cs ce cm out)
  case Nil
  then show ?case by auto
next
  case (Cons h rest)
  obtain d sp where h: "h = (d, sp)" by (cases h)
  from Cons.prems(1) have nover: "\<not> date_max \<le> ce" by (auto simp add: h split: if_splits)
  from Cons.prems(5) have ced: "ce < d" and srt: "sorted_wrt (<) (d # map fst rest)"
    by (simp_all add: h)
  from Cons.prems(6) have dH: "d \<in> H" and fd: "f d = sp"
    and restH: "\<forall>(x, s) \<in> set rest. x \<in> H \<and> f x = s"
    by (simp_all add: h)
  have later: "d \<le> y" if "y \<in> insert d (fst ` set rest)" for y
    using that srt by auto
  show ?case
  proof (cases "d = ce + 1")
    case True
    from Cons.prems(1) nover True
    have m: "merge_hits pls rest cs d (max cm sp) [] = Inr out" by (simp add: h)
    have "{cs..d} = insert d {cs..ce}" using True Cons.prems(2) by auto
    then have sub: "{cs..d} \<subseteq> H" using Cons.prems(3) dH by simp
    have mx: "max cm sp = Max (f ` {cs..d})"
      using Max_image_extend [OF Cons.prems(2), of f] True fd Cons.prems(4) by simp
    have csd: "cs \<le> d" using Cons.prems(2) True by simp
    from Cons.IH [OF m csd sub mx srt restH]
    have ih: "out \<noteq> []" "start (hd out) = cs"
      "\<forall>iv \<in> set out. cs \<le> start iv \<and> start iv \<le> end_day iv \<and>
         {start iv..end_day iv} \<subseteq> H \<and> max_span_deg iv = Max (f ` {start iv..end_day iv}) \<and>
         planets iv = pls \<and> end_day iv \<in> insert d (fst ` set rest)"
      "\<forall>i. i + 1 < length out \<longrightarrow>
         end_day (out ! i) + 2 \<le> start (out ! (i + 1)) \<and>
         end_day (out ! i) + 1 \<notin> fst ` set rest"
      by blast+
    have notd: "end_day (out ! i) + 1 \<noteq> d" if "i + 1 < length out" for i
    proof -
      have "out ! i \<in> set out" using that by simp
      then have "end_day (out ! i) \<in> insert d (fst ` set rest)" using ih(3) by blast
      then have "d \<le> end_day (out ! i)" by (rule later)
      then show ?thesis by simp
    qed
    have "\<forall>iv \<in> set out. end_day iv \<in> insert ce (fst ` set (h # rest))"
      using ih(3) by (auto simp add: h)
    moreover have "\<forall>i. i + 1 < length out \<longrightarrow> end_day (out ! i) + 1 \<notin> fst ` set (h # rest)"
      using ih(4) notd by (auto simp add: h)
    ultimately show ?thesis using ih by blast
  next
    case False
    with ced have gap: "ce + 2 \<le> d" by simp
    let ?x = "\<lparr>start = cs, end_day = ce, planets = pls, max_span_deg = cm\<rparr>"
    from Cons.prems(1) nover False
    have "merge_hits pls rest d d sp [?x] = Inr out" by (simp add: h)
    then obtain out' where m: "merge_hits pls rest d d sp [] = Inr out'" and out: "out = ?x # out'"
      using merge_hits_acc [of pls rest d d sp "[?x]"] by (auto split: sum.splits)
    have sub: "{d..d} \<subseteq> H" using dH by simp
    have mx: "sp = Max (f ` {d..d})" using fd by simp
    from Cons.IH [OF m order_refl sub mx srt restH]
    have ih: "out' \<noteq> []" "start (hd out') = d"
      "\<forall>iv \<in> set out'. d \<le> start iv \<and> start iv \<le> end_day iv \<and>
         {start iv..end_day iv} \<subseteq> H \<and> max_span_deg iv = Max (f ` {start iv..end_day iv}) \<and>
         planets iv = pls \<and> end_day iv \<in> insert d (fst ` set rest)"
      "\<forall>i. i + 1 < length out' \<longrightarrow>
         end_day (out' ! i) + 2 \<le> start (out' ! (i + 1)) \<and>
         end_day (out' ! i) + 1 \<notin> fst ` set rest"
      by blast+
    have p1: "out \<noteq> [] \<and> start (hd out) = cs" by (simp add: out)
    have p2: "\<forall>iv \<in> set out. cs \<le> start iv \<and> start iv \<le> end_day iv \<and>
       {start iv..end_day iv} \<subseteq> H \<and> max_span_deg iv = Max (f ` {start iv..end_day iv}) \<and>
       planets iv = pls \<and> end_day iv \<in> insert ce (fst ` set (h # rest))"
    proof
      fix iv assume "iv \<in> set out"
      then consider "iv = ?x" | "iv \<in> set out'" by (auto simp add: out)
      then show "cs \<le> start iv \<and> start iv \<le> end_day iv \<and>
       {start iv..end_day iv} \<subseteq> H \<and> max_span_deg iv = Max (f ` {start iv..end_day iv}) \<and>
       planets iv = pls \<and> end_day iv \<in> insert ce (fst ` set (h # rest))"
      proof cases
        case 1
        then show ?thesis using Cons.prems(2,3,4) by simp
      next
        case 2
        with ih(3) have "d \<le> start iv \<and> start iv \<le> end_day iv \<and>
         {start iv..end_day iv} \<subseteq> H \<and> max_span_deg iv = Max (f ` {start iv..end_day iv}) \<and>
         planets iv = pls \<and> end_day iv \<in> insert d (fst ` set rest)" by blast
        moreover have "cs \<le> d" using Cons.prems(2) ced by simp
        ultimately show ?thesis by (auto simp add: h)
      qed
    qed
    have p3: "\<forall>i. i + 1 < length out \<longrightarrow>
       end_day (out ! i) + 2 \<le> start (out ! (i + 1)) \<and>
       end_day (out ! i) + 1 \<notin> fst ` set (h # rest)"
    proof (intro allI impI)
      fix i assume i: "i + 1 < length out"
      show "end_day (out ! i) + 2 \<le> start (out ! (i + 1)) \<and>
       end_day (out ! i) + 1 \<notin> fst ` set (h # rest)"
      proof (cases i)
        case 0
        have "start (out' ! 0) = d" using ih(1,2) by (simp add: hd_conv_nth)
        moreover have "ce + 1 \<notin> fst ` set (h # rest)"
        proof
          assume "ce + 1 \<in> fst ` set (h # rest)"
          then have "ce + 1 \<in> insert d (fst ` set rest)" by (simp add: h)
          then have "d \<le> ce + 1" by (rule later)
          with gap show False by simp
        qed
        ultimately show ?thesis using 0 gap by (simp add: out)
      next
        case (Suc j)
        with i have j: "j + 1 < length out'" by (simp add: out)
        then have "out' ! j \<in> set out'" by simp
        then have "end_day (out' ! j) \<in> insert d (fst ` set rest)" using ih(3) by blast
        then have "d \<le> end_day (out' ! j)" by (rule later)
        then have "end_day (out' ! j) + 1 \<noteq> d" by simp
        then show ?thesis using ih(4) j Suc by (auto simp add: out h)
      qed
    qed
    from p1 p2 p3 show ?thesis by blast
  qed
qed

subsection \<open>Intervals of a successful scan\<close>

lemma hit_day_iff:
  "hit_day fetch pls thr s e d \<longleftrightarrow>
     s \<le> d \<and> d \<le> e \<and> (\<exists>sp. day_span fetch pls d = Inr sp \<and> sp \<le> thr)"
  by (auto simp add: hit_day_def split: sum.splits)

lemma list_planetary_alignments_structure:
  assumes "fst (list_planetary_alignments fetch s e pls thr) = Inr ivs"
  shows "(\<forall>iv \<in> set ivs. start iv \<le> end_day iv \<and>
            {start iv..end_day iv} \<subseteq> {d. hit_day fetch pls thr s e d} \<and>
            max_span_deg iv =
              Max ((\<lambda>d. projr (day_span fetch pls d)) ` {start iv..end_day iv}) \<and>
            planets iv = pls) \<and>
         (\<forall>i. i + 1 < length ivs \<longrightarrow>
            end_day (ivs ! i) + 2 \<le> start (ivs ! (i + 1)) \<and>
            (\<exists>sp. day_span fetch pls (end_day (ivs ! i) + 1) = Inr sp \<and> thr < sp))"
proof -
  let ?H = "{d. hit_day fetch pls thr s e d}"
  let ?f = "\<lambda>d. projr (day_span fetch pls d)"
  obtain r calls where sc: "scan_days fetch pls thr s e [] [] = (r, calls)"
    by (cases "scan_days fetch pls thr s e [] []")
  from assms have v: "validate_planets pls = Inr ()"
    by (cases "validate_planets pls") (simp_all add: list_planetary_alignments_def)
  from assms v sc obtain hits where r: "r = Inr hits"
    by (cases r) (simp_all add: list_planetary_alignments_def)
  from scan_days_hits [of fetch pls thr s e "[]" "[]" hits] sc r
  have srt: "sorted_wrt (<) (map fst hits)"
    and snd: "\<forall>(x, sp) \<in> set hits. s \<le> x \<and> x \<le> e \<and> day_span fetch pls x = Inr sp \<and> sp \<le> thr"
    and cmp: "\<forall>x. s \<le> x \<and> x \<le> e \<longrightarrow>
        (\<exists>sp. day_span fetch pls x = Inr sp \<and> (sp \<le> thr \<longrightarrow> (x, sp) \<in> set hits))"
    by auto
  show ?thesis
  proof (cases hits)
    case Nil
    with assms v sc r have "ivs = []" by (simp add: list_planetary_alignments_def)
    then show ?thesis by simp
  next
    case (Cons h rest)
    obtain d0 sp0 where h: "h = (d0, sp0)" by (cases h)
    from assms v sc r Cons h have m: "merge_hits pls rest d0 d0 sp0 [] = Inr ivs"
      by (simp add: list_planetary_alignments_def)
    have inH: "\<forall>(x, sp) \<in> set hits. x \<in> ?H \<and> ?f x = sp"
      using snd by (auto simp add: hit_day_iff)
    then have d0: "{d0..d0} \<subseteq> ?H" "sp0 = Max (?f ` {d0..d0})"
      and restH: "\<forall>(x, sp) \<in> set rest. x \<in> ?H \<and> ?f x = sp"
      by (simp_all add: Cons h)
    have srt': "sorted_wrt (<) (d0 # map fst rest)" using srt by (simp add: Cons h)
    from merge_hits_invariant [OF m order_refl d0 srt' restH]
    have inv: "\<forall>iv \<in> set ivs. d0 \<le> start iv \<and> start iv \<le> end_day iv \<and>
         {start iv..end_day iv} \<subseteq> ?H \<and> max_span_deg iv = Max (?f ` {start iv..end_day iv}) \<and>
         planets iv = pls \<and> end_day iv \<in> insert d0 (fst ` set rest)"
      and chain: "\<forall>i. i + 1 < length ivs \<longrightarrow>
         end_day (ivs ! i) + 2 \<le> start (ivs ! (i + 1)) \<and>
         end_day (ivs ! i) + 1 \<notin> fst ` set rest"
      by blast+
    have sep: "\<exists>sp. day_span fetch pls (end_day (ivs ! i) + 1) = Inr sp \<and> thr < sp"
      if i: "i + 1 < length ivs" for i
    proof -
      let ?a = "ivs ! i" and ?b = "ivs ! (i + 1)"
      have a: "?a \<in> set ivs" and b: "?b \<in> set ivs" using i by simp_all
      from chain i have gap: "end_day ?a + 2 \<le> start ?b" and nr: "end_day ?a + 1 \<notin> fst ` set rest"
        by blast+
      from inv a have "d0 \<le> start ?a" "start ?a \<le> end_day ?a" "{start ?a..end_day ?a} \<subseteq> ?H"
        by blast+
      then have lo: "s \<le> end_day ?a + 1" and nd0: "end_day ?a + 1 \<noteq> d0"
        by (auto simp add: hit_day_iff)
      from inv b have "start ?b \<le> end_day ?b" "{start ?b..end_day ?b} \<subseteq> ?H" by blast+
      then have "start ?b \<le> e" by (auto simp add: hit_day_iff)
      with gap have hi: "end_day ?a + 1 \<le> e" by simp
      from nr nd0 have nh: "end_day ?a + 1 \<notin> fst ` set hits" by (simp add: Cons h)
      from cmp lo hi obtain sp where sp: "day_span fetch pls (end_day ?a + 1) = Inr sp"
        "sp \<le> thr \<longrightarrow> (end_day ?a + 1, sp) \<in> set hits" by blast
      from sp(2) nh have "thr < sp" by force
      with sp(1) show ?thesis by blast
    qed
    from inv chain sep show ?thesis by blast
  qed
qed

text \<open>
  C1. Every interval that \<open>list_planetary_alignments\<close> returns has
  \<open>start \<le> end\<close>; every calendar day from \<open>start\<close> to \<open>end\<close> was a hit, a sampled day
  whose span was at most the threshold; and \<open>max_span_deg\<close> is the maximum of the
  daily spans over these days, hence at most the threshold.
\<close>

theorem alignment_intervals_are_hit_runs:
  assumes "fst (list_planetary_alignments fetch start_d end_d pls thr) = Inr ivs"
    and "iv \<in> set ivs"
  shows "start iv \<le> end_day iv \<and>
     (\<forall>d \<in> {start iv..end_day iv}. hit_day fetch pls thr start_d end_d d) \<and>
     max_span_deg iv = Max {sp. \<exists>d \<in> {start iv..end_day iv}. day_span fetch pls d = Inr sp} \<and>
     max_span_deg iv \<le> thr"
proof -
  let ?f = "\<lambda>d. projr (day_span fetch pls d)"
  let ?S = "{sp. \<exists>d \<in> {start iv..end_day iv}. day_span fetch pls d = Inr sp}"
  from list_planetary_alignments_structure [OF assms(1)] assms(2)
  have le: "start iv \<le> end_day iv"
    and sub: "{start iv..end_day iv} \<subseteq> {d. hit_day fetch pls thr start_d end_d d}"
    and mx: "max_span_deg iv = Max (?f ` {start iv..end_day iv})"
    by blast+
  have eq: "?f ` {start iv..end_day iv} = ?S"
  proof (intro set_eqI iffI)
    fix sp assume "sp \<in> ?f ` {start iv..end_day iv}"
    then obtain d where d: "d \<in> {start iv..end_day iv}" "sp = ?f d" by blast
    with sub obtain s' where "day_span fetch pls d = Inr s'" by (auto simp add: hit_day_iff)
    with d show "sp \<in> ?S" by auto
  next
    fix sp assume "sp \<in> ?S"
    then obtain d where "d \<in> {start iv..end_day iv}" "day_span fetch pls d = Inr sp" by blast
    then show "sp \<in> ?f ` {start iv..end_day iv}" by force
  qed
  have "finite (?f ` {start iv..end_day iv})" "?f ` {start iv..end_day iv} \<noteq> {}"
    using le by simp_all
  then have "Max (?f ` {start iv..end_day iv}) \<in> ?f ` {start iv..end_day iv}" by (rule Max_in)
  then obtain d where d: "d \<in> {start iv..end_day iv}" "max_span_deg iv = ?f d"
    using mx by auto
  with sub have "hit_day fetch pls thr start_d end_d d" by blast
  then have "?f d \<le> thr" by (auto simp add: hit_day_iff)
  with d sub mx eq le show ?thesis by auto
qed

text \<open>The theorem on the five days of the test provider, at the interval of days
  4 and 5.\<close>

theorem alignment_intervals_are_hit_runs_witness:
  "fst (list_planetary_alignments demo_fetch 1 5 [''Venus'', ''Mars''] 10) =
     Inr [\<lparr>start = 1, end_day = 2, planets = [''Venus'', ''Mars''], max_span_deg = 2\<rparr>,
          \<lparr>start = 4, end_day = 5, planets = [''Venus'', ''Mars''], max_span_deg = 5\<rparr>] \<and>
   hit_day demo_fetch [''Venus'', ''Mars''] 10 1 5 4 \<and>
   hit_day demo_fetch [''Venus'', ''Mars''] 10 1 5 5 \<and>
   Max {sp. \<exists>d \<in> {4..5}. day_span demo_fetch [''Venus'', ''Mars''] d = Inr sp} = 5"
proof -
  let ?iv = "\<lparr>start = 4, end_day = 5, planets = [''Venus'', ''Mars''], max_span_deg = 5\<rparr>"
  have ev: "fst (list_planetary_alignments demo_fetch 1 5 [''Venus'', ''Mars''] 10) =
     Inr [\<lparr>start = 1, end_day = 2, planets = [''Venus'', ''Mars''], max_span_deg = 2\<rparr>, ?iv]"
    by code_simp
  from alignment_intervals_are_hit_runs [OF ev, of ?iv] show ?thesis
    using ev by simp
qed

text \<open>
  C10. The intervals that \<open>list_planetary_alignments\<close> returns are in strictly
  increasing order and disjoint: every later interval starts at least two days after
  the end of an earlier one, and the day after the end of an interval that has a
  successor was sampled and was not a hit.
\<close>

theorem alignment_intervals_ordered_separated:
  assumes "fst (list_planetary_alignments fetch start_d end_d pls thr) = Inr ivs"
  shows "sorted_wrt (\<lambda>a b. end_day a + 2 \<le> start b) ivs \<and>
     (\<forall>i. i + 1 < length ivs \<longrightarrow>
        end_day (ivs ! i) + 2 \<le> start (ivs ! (i + 1)) \<and>
        (\<exists>sp. day_span fetch pls (end_day (ivs ! i) + 1) = Inr sp \<and> thr < sp))"
proof -
  define R where "R = (\<lambda>(a :: AlignmentHit) (b :: AlignmentHit).
     start a \<le> end_day a \<and> start b \<le> end_day b \<and> end_day a + 2 \<le> start b)"
  from list_planetary_alignments_structure [OF assms]
  have le: "\<forall>iv \<in> set ivs. start iv \<le> end_day iv"
    and chain: "\<forall>i. i + 1 < length ivs \<longrightarrow>
        end_day (ivs ! i) + 2 \<le> start (ivs ! (i + 1)) \<and>
        (\<exists>sp. day_span fetch pls (end_day (ivs ! i) + 1) = Inr sp \<and> thr < sp)"
    by blast+
  have "transp R" by (auto simp add: R_def transp_def)
  moreover have "\<forall>i. Suc i < length ivs \<longrightarrow> R (ivs ! i) (ivs ! Suc i)"
    using le chain by (simp add: R_def)
  ultimately have "sorted_wrt R ivs" by (simp add: sorted_wrt_iff_nth_Suc_transp)
  then have "sorted_wrt (\<lambda>a b. end_day a + 2 \<le> start b) ivs"
    by (rule sorted_wrt_mono_rel [rotated]) (simp add: R_def)
  with chain show ?thesis by blast
qed

text \<open>The theorem on the five days of the test provider: two intervals, day 3
  between them.\<close>

theorem alignment_intervals_ordered_separated_witness:
  "fst (list_planetary_alignments demo_fetch 1 5 [''Venus'', ''Mars''] 10) =
     Inr [\<lparr>start = 1, end_day = 2, planets = [''Venus'', ''Mars''], max_span_deg = 2\<rparr>,
          \<lparr>start = 4, end_day = 5, planets = [''Venus'', ''Mars''], max_span_deg = 5\<rparr>] \<and>
   (\<exists>sp. day_span demo_fetch [''Venus'', ''Mars''] 3 = Inr sp \<and> 10 < sp)"
proof -
  have ev: "fst (list_planetary_alignments demo_fetch 1 5 [''Venus'', ''Mars''] 10) =
     Inr [\<lparr>start = 1, end_day = 2, planets = [''Venus'', ''Mars''], max_span_deg = 2\<rparr>,
          \<lparr>start = 4, end_day = 5, planets = [''Venus'', ''Mars''], max_span_deg = 5\<rparr>]"
    by code_simp
  from alignment_intervals_ordered_separated [OF ev] show ?thesis
    using ev by simp
qed

end
